theory Spec2Isabelle
  imports Main "HOL-Library.Word"
begin

section \<open>Package-level state of \<open>main.go\<close>\<close>

text \<open>
  \<open>type portForwarder struct { env string; src uint16; dest uint32 }\<close>.
\<close>

record portForwarder =
  env :: string
  src :: "16 word"
  dest :: "32 word"

text \<open>
  The package variables the allocator, \<open>init\<close> and \<open>runner\<close> use. \<open>portMin\<close> and
  \<open>portMax\<close> are Go \<open>int\<close>s filled in by \<open>flag.IntVar\<close>; they are kept as mathematical
  integers, and every \<open>uint16(...)\<close> conversion of the source is \<open>word_of_int\<close>, which
  keeps the low 16 bits exactly as the Go conversion does. \<open>portMap\<close> is the registry
  \<open>map[uint16]*portForwarder\<close>: every pointer stored in it is reachable only through its
  key, so the map holds the forwarder records themselves. \<open>portMutex\<close> serialises the
  calls of \<open>nextPort\<close>; in this sequential model a call is one atomic function
  application.
\<close>

record globals =
  verbose :: bool
  addrEnvs :: string
  portMin :: int
  portMax :: int
  portCycle :: "16 word"
  portMap :: "16 word \<rightharpoonup> portForwarder"

section \<open>The port allocator\<close>

text \<open>
  \<open>func nextPort() uint16\<close>: increment the cursor (wrapping at \<open>2^16\<close>), reset it to
  \<open>uint16(portMin)\<close> when it equals \<open>uint16(portMax)\<close>, return it.
\<close>

definition nextPort :: "globals \<Rightarrow> 16 word \<times> globals" where
  "nextPort g =
     (let c = portCycle g + 1;
          c' = (if c = word_of_int (portMax g) then word_of_int (portMin g) else c)
      in (c', g\<lparr>portCycle := c'\<rparr>))"

text \<open>\<open>n\<close> successive calls of \<open>nextPort\<close>, with the values they return in call order.\<close>

fun nextPorts :: "nat \<Rightarrow> globals \<Rightarrow> 16 word list \<times> globals" where
  "nextPorts 0 g = ([], g)"
| "nextPorts (Suc n) g =
     (let (p, g1) = nextPort g; (ps, g2) = nextPorts n g1 in (p # ps, g2))"

text \<open>
  \<open>func (p *portForwarder) Cycle() uint16\<close>, for the forwarder registered under key
  \<open>k\<close>: take the next port and store it, widened to \<open>uint32\<close>, as the destination.
\<close>

definition Cycle :: "16 word \<Rightarrow> globals \<Rightarrow> 16 word \<times> globals" where
  "Cycle k g =
     (let (port, g1) = nextPort g
      in (port, g1\<lparr>portMap := (\<lambda>x. if x = k
                                     then map_option (\<lambda>p. p\<lparr>dest := ucast port\<rparr>) (portMap g1 x)
                                     else portMap g1 x)\<rparr>))"

text \<open>
  The range the flags describe is a range of 16-bit ports when
  \<open>0 \<le> port-min < port-max \<le> 65536\<close>.
\<close>

definition port_range :: "int \<Rightarrow> int \<Rightarrow> bool" where
  "port_range lo hi \<longleftrightarrow> 0 \<le> lo \<and> lo < hi \<and> hi \<le> 65536"

text \<open>The cyclic successor on \<open>[lo, hi)\<close> and the values of \<open>n\<close> successive steps.\<close>

definition cyc :: "int \<Rightarrow> int \<Rightarrow> int \<Rightarrow> int" where
  "cyc lo hi c = (if c + 1 = hi then lo else c + 1)"

fun cyc_seq :: "int \<Rightarrow> int \<Rightarrow> nat \<Rightarrow> int \<Rightarrow> int list" where
  "cyc_seq lo hi 0 c = []"
| "cyc_seq lo hi (Suc n) c = cyc lo hi c # cyc_seq lo hi n (cyc lo hi c)"

text \<open>
  The cursor is where \<open>init\<close> leaves it, one below \<open>uint16(portMin)\<close>, or it is a port
  of the range.
\<close>

definition cursor_ok :: "globals \<Rightarrow> bool" where
  "cursor_ok g \<longleftrightarrow>
     portCycle g = word_of_int (portMin g) - 1
     \<or> (portMin g \<le> uint (portCycle g) \<and> uint (portCycle g) < portMax g)"

section \<open>Strings\<close>

text \<open>
  \<open>strings.Split(s, sep)\<close> for a one-byte separator, as the source calls it with
  \<open>","\<close>: all substrings between separators; the empty string gives one empty element.
\<close>

fun Split :: "string \<Rightarrow> char \<Rightarrow> string list" where
  "Split [] c = [[]]"
| "Split (x # xs) c =
     (if x = c then [] # Split xs c
      else (case Split xs c of [] \<Rightarrow> [[x]] | w # ws \<Rightarrow> (x # w) # ws))"

text \<open>
  \<open>strings.SplitN(s, sep, n)\<close> for a one-byte separator and \<open>n \<ge> 0\<close>: at most \<open>n\<close>
  substrings, the last one being the unsplit remainder.
\<close>

fun SplitN :: "string \<Rightarrow> char \<Rightarrow> nat \<Rightarrow> string list" where
  "SplitN s c 0 = []"
| "SplitN s c (Suc 0) = [s]"
| "SplitN s c (Suc (Suc m)) =
     (if c \<in> set s
      then takeWhile (\<lambda>x. x \<noteq> c) s # SplitN (tl (dropWhile (\<lambda>x. x \<noteq> c) s)) c (Suc m)
      else [s])"

definition digit_val :: "char \<Rightarrow> nat option" where
  "digit_val c =
     map_of [(CHR ''0'', 0), (CHR ''1'', 1), (CHR ''2'', 2), (CHR ''3'', 3), (CHR ''4'', 4),
             (CHR ''5'', 5), (CHR ''6'', 6), (CHR ''7'', 7), (CHR ''8'', 8), (CHR ''9'', 9)] c"

fun digits_val :: "string \<Rightarrow> nat \<Rightarrow> nat option" where
  "digits_val [] acc = Some acc"
| "digits_val (c # cs) acc =
     (case digit_val c of None \<Rightarrow> None | Some d \<Rightarrow> digits_val cs (10 * acc + d))"

text \<open>
  \<open>strconv.Atoi\<close> on a 64-bit platform: an optional sign, then at least one decimal
  digit and nothing else; a value outside the \<open>int\<close> range is an error (\<open>None\<close>).
\<close>

definition Atoi :: "string \<Rightarrow> int option" where
  "Atoi s =
     (let (neg, ds) = (case s of [] \<Rightarrow> (False, [])
                       | c # r \<Rightarrow> if c = CHR ''-'' then (True, r)
                                  else if c = CHR ''+'' then (False, r) else (False, s))
      in if ds = [] then None
         else (case digits_val ds 0 of None \<Rightarrow> None
               | Some n \<Rightarrow>
                   (let v = (if neg then - int n else int n)
                    in if v < - (2 ^ 63) \<or> 2 ^ 63 - 1 < v then None else Some v)))"

text \<open>The verb \<open>%d\<close> of \<open>fmt.Sprintf\<close> on an unsigned value.\<close>

fun dec :: "nat \<Rightarrow> string" where
  "dec n = (if n < 10 then [''0123456789'' ! n]
            else dec (n div 10) @ [''0123456789'' ! (n mod 10)])"

declare dec.simps [simp del]

section \<open>The port forwarder\<close>

text \<open>
  What \<open>Run\<close> and the two relay goroutines do to sockets. \<open>Sock n\<close> is the \<open>n\<close>-th
  connection \<open>l.Accept()\<close> returned, \<open>Remote n\<close> the connection \<open>net.Dial\<close> opened for
  it. \<open>Copy dst src\<close> is one \<open>io.Copy(dst, src)\<close> run to its end (end of stream or an
  I/O error).
\<close>

datatype conn = Sock nat | Remote nat

datatype io = Listen string | Dial string | Log string | Copy conn conn | Close conn

datatype neterr = ListenError | AcceptError

text \<open>
  What the network gives one forwarder: whether \<open>net.Listen\<close> succeeds, and a finite
  prefix of what its accept loop meets. \<open>Accepted d ok\<close> is a connection accepted at a
  moment when \<open>atomic.LoadUint32(&p.dest)\<close> reads \<open>d\<close> and the dial succeeds iff \<open>ok\<close>;
  \<open>AcceptFails\<close> is an error from \<open>l.Accept()\<close>.
\<close>

datatype accept_ev = AcceptFails | Accepted "32 word" bool

record fwd_world =
  listen_ok :: bool
  accepts :: "accept_ev list"

text \<open>The bodies of the two goroutines started for one relayed connection.\<close>

definition read_thread :: "conn \<Rightarrow> conn \<Rightarrow> io list" where
  "read_thread sock remote = [Copy sock remote, Close sock]"

definition write_thread :: "conn \<Rightarrow> conn \<Rightarrow> io list" where
  "write_thread sock remote = [Copy remote sock, Close sock]"

text \<open>
  The outcome of one \<open>Run\<close>: its own actions, the bodies of the goroutines it started,
  and the error it returned (\<open>None\<close> while it is still in its accept loop at the end of
  the prefix).
\<close>

type_synonym run_outcome = "io list \<times> io list list \<times> neterr option"

fun accept_loop :: "nat \<Rightarrow> accept_ev list \<Rightarrow> run_outcome" where
  "accept_loop n [] = ([], [], None)"
| "accept_loop n (AcceptFails # evs) = ([], [], Some AcceptError)"
| "accept_loop n (Accepted d ok # evs) =
     (let raddr = ''localhost:'' @ dec (unat d);
          (acts, gos, r) = accept_loop (Suc n) evs
      in if \<not> ok
         then (Dial raddr # Log (''Could not connect to '' @ raddr) # Close (Sock n) # acts,
               gos, r)
         else (Dial raddr # acts,
               read_thread (Sock n) (Remote n) # write_thread (Sock n) (Remote n) # gos, r))"

definition Run :: "fwd_world \<Rightarrow> portForwarder \<Rightarrow> run_outcome" where
  "Run w p =
     (if \<not> listen_ok w then ([Listen ('':'' @ dec (unat (src p)))], [], Some ListenError)
      else (let (acts, gos, r) = accept_loop 0 (accepts w)
            in (Listen ('':'' @ dec (unat (src p))) # acts, gos, r)))"

text \<open>
  \<open>newPortForwarder\<close>: build the forwarder and start \<open>go p.Run()\<close>. The goroutine's
  outcome is handed back beside the forwarder so that it can be observed; the source
  has no receiver for the value \<open>Run\<close> returns.
\<close>

definition newPortForwarder :: "fwd_world \<Rightarrow> string \<Rightarrow> 16 word \<Rightarrow> portForwarder \<times> run_outcome" where
  "newPortForwarder w e s =
     (let p = \<lparr>env = e, src = s, dest = 0\<rparr> in (p, Run w p))"

section \<open>Startup\<close>

datatype fatal = NoCommand | MissingPort | InvalidPort

fun message :: "fatal \<Rightarrow> string" where
  "message NoCommand = ''You must provide a command to run.''"
| "message MissingPort = ''Syntax error: addr-env pair missing port.''"
| "message InvalidPort = ''Syntax error: addr-env pair port invalid.''"

text \<open>
  How \<open>init\<close> ends: \<open>log.Fatalln\<close> (the process exits) or normal return with the package
  state, in both cases with the outcomes of the forwarder goroutines started so far.
\<close>

datatype startup = Fatal fatal "run_outcome list" | Started globals "run_outcome list"

text \<open>
  The loop over \<open>strings.Split(addrEnvs, ",")\<close>; \<open>w i\<close> is what the network gives the
  forwarder of the \<open>i\<close>-th list element.
\<close>

fun addrEnv_loop ::
  "(nat \<Rightarrow> fwd_world) \<Rightarrow> nat \<Rightarrow> string list \<Rightarrow> globals \<Rightarrow> run_outcome list \<Rightarrow> startup" where
  "addrEnv_loop w i [] g gos = Started g gos"
| "addrEnv_loop w i (addrEnv # rest) g gos =
     (let parts = SplitN addrEnv CHR '':'' 2
      in if length parts \<noteq> 2 then Fatal MissingPort gos
         else (case Atoi (parts ! 1) of
                 None \<Rightarrow> Fatal InvalidPort gos
               | Some port \<Rightarrow>
                   (let (p, r) = newPortForwarder (w i) (parts ! 0) (word_of_int port)
                    in addrEnv_loop w (Suc i) rest
                         (g\<lparr>portMap := (portMap g)(word_of_int port \<mapsto> p)\<rparr>) (gos @ [r]))))"

text \<open>
  \<open>func init()\<close> after \<open>flag.Parse()\<close>: \<open>nargs\<close> is \<open>flag.NArg()\<close> and \<open>g\<close> holds the
  parsed flag values.
\<close>

definition init :: "(nat \<Rightarrow> fwd_world) \<Rightarrow> nat \<Rightarrow> globals \<Rightarrow> startup" where
  "init w nargs g =
     (if nargs < 1 then Fatal NoCommand []
      else addrEnv_loop w 0 (Split (addrEnvs g) CHR '','')
             (g\<lparr>portCycle := word_of_int (portMin g) - 1\<rparr>) [])"

text \<open>The package state right after \<open>flag.Parse()\<close>: flag values, and Go's zero values.\<close>

definition parsed :: "bool \<Rightarrow> string \<Rightarrow> int \<Rightarrow> int \<Rightarrow> globals" where
  "parsed v a lo hi =
     \<lparr>verbose = v, addrEnvs = a, portMin = lo, portMax = hi, portCycle = 0,
      portMap = Map.empty\<rparr>"

text \<open>The package state \<open>main\<close> starts from, when \<open>init\<close> returns.\<close>

fun started_state :: "startup \<Rightarrow> globals option" where
  "started_state (Started g gos) = Some g"
| "started_state (Fatal e gos) = None"

text \<open>The error \<open>init\<close> ends with, when it ends in \<open>log.Fatalln\<close>.\<close>

definition fatal_of :: "startup \<Rightarrow> fatal option" where
  "fatal_of s = (case s of Fatal e gos \<Rightarrow> Some e | Started g gos \<Rightarrow> None)"




section \<open>The supervisor\<close>

text \<open>
  \<open>fmt.Sprintf("%s=localhost:%d", mapper.env, port)\<close>.
\<close>

definition env_entry :: "string \<Rightarrow> 16 word \<Rightarrow> string" where
  "env_entry e port = e @ ''=localhost:'' @ dec (unat port)"

text \<open>
  The loop \<open>for _, mapper := range portMap\<close> of \<open>runner\<close>. Go leaves the order of a
  map range open, so the order in which this run of the loop meets the keys is the
  parameter \<open>ks\<close>; a range meets every key once, and a key that is not in the map is
  never met (the model skips it). \<open>cenv\<close> is \<open>cmd.Env\<close>.
\<close>

fun env_loop :: "16 word list \<Rightarrow> string list \<Rightarrow> globals \<Rightarrow> string list \<times> globals" where
  "env_loop [] cenv g = (cenv, g)"
| "env_loop (k # ks) cenv g =
     (case portMap g k of
        None \<Rightarrow> env_loop ks cenv g
      | Some mapper \<Rightarrow>
          (let (port, g1) = Cycle k g
           in env_loop ks (cenv @ [env_entry (env mapper) port]) g1))"

text \<open>The values the \<open>Cycle()\<close> calls of one run of that loop return, in call order.\<close>

fun cycled :: "16 word list \<Rightarrow> globals \<Rightarrow> 16 word list" where
  "cycled [] g = []"
| "cycled (k # ks) g =
     (case portMap g k of
        None \<Rightarrow> cycled ks g
      | Some mapper \<Rightarrow> (let (port, g1) = Cycle k g in port # cycled ks g1))"

text \<open>
  What \<open>runner\<close> does to the child process, in program order. \<open>Start args cenv r\<close> is
  \<open>cmd.Start()\<close> of the command \<open>args\<close> with environment \<open>cenv\<close> and \<open>Setpgid\<close> set,
  so that the child leads a process group of its own; \<open>r\<close> is the child's pid, or
  \<open>None\<close> when the start fails. \<open>Recv\<close> is the receive \<open><-signal\<close>, \<open>Kill9 t\<close> is
  \<open>syscall.Kill(t, SIGKILL)\<close> (a negative target is a process group), \<open>Reap p\<close> is
  \<open>cmd.Process.Wait()\<close> on the child \<open>p\<close>.
\<close>

datatype proc_event =
  PLog string | Start "string list" "string list" "nat option" | Recv | Kill9 int | Reap nat

text \<open>
  One pass of the loop of \<open>runner\<close> as the outside world shapes it: the order of the map
  range, the result of \<open>cmd.Start()\<close>, and whether a pulse ever arrives on \<open>signal\<close>.
\<close>

record pass =
  order :: "16 word list"
  started :: "nat option"
  pulse :: bool

text \<open>
  How a run of \<open>runner\<close> over a finite list of passes ends: \<open>log.Fatalln\<close> after a failed
  start, blocked for ever on \<open>signal\<close>, the index panic of \<open>args[0]\<close> on an empty
  argument vector, or still looping when the list is used up.
\<close>

datatype run_status = ExecFatal | Blocked | IndexPanic | Looping

text \<open>\<open>func runner(args, signal)\<close>; \<open>environ\<close> is \<open>os.Environ()\<close>.\<close>

fun runner ::
  "string list \<Rightarrow> string list \<Rightarrow> pass list \<Rightarrow> globals \<Rightarrow> proc_event list \<times> run_status \<times> globals" where
  "runner args environ [] g = ([], Looping, g)"
| "runner args environ (it # its) g =
     (let pre = (if verbose g then [PLog ''Executing command...''] else [])
      in if args = [] then (pre, IndexPanic, g)
         else (let (cenv, g1) = env_loop (order it) environ g
               in (case started it of
                     None \<Rightarrow>
                       (pre @ [Start args cenv None, PLog ''Error executing command:''],
                        ExecFatal, g1)
                   | Some pid \<Rightarrow>
                       if \<not> pulse it then (pre @ [Start args cenv (Some pid)], Blocked, g1)
                       else (let (tr, st, g2) = runner args environ its g1
                             in (pre @ [Start args cenv (Some pid), Recv,
                                        PLog ''Files have changed, reloading...'',
                                        Kill9 (- int pid), Reap pid] @ tr,
                                 st, g2)))))"





text \<open>
  \<open>rotated g c h\<close>: the state \<open>h\<close> has the range and the forwarder names of \<open>g\<close>, and its
  cursor is the cursor of \<open>g\<close> after \<open>c\<close> calls of \<open>nextPort\<close>.
\<close>

definition rotated :: "globals \<Rightarrow> nat \<Rightarrow> globals \<Rightarrow> bool" where
  "rotated g c h \<longleftrightarrow>
     portMin h = portMin g \<and> portMax h = portMax g
     \<and> portCycle h = portCycle (snd (nextPorts c g))
     \<and> (\<forall>x. map_option env (portMap h x) = map_option env (portMap g x))"

section \<open>Allocator lemmas\<close>

lemma word16_of_int_eq_iff:
  "0 \<le> a \<Longrightarrow> a < 65536 \<Longrightarrow> 0 \<le> b \<Longrightarrow> b < 65536 \<Longrightarrow>
   (word_of_int a :: 16 word) = word_of_int b \<longleftrightarrow> a = b"
  by (simp add: word_of_int_eq_iff take_bit_eq_mod)

lemma word16_65537: "(65537 :: 16 word) = 1"
  by (simp add: word_uint_eq_iff)

lemma nextPort_step:
  assumes r: "port_range (portMin g) (portMax g)"
    and c: "portMin g - 1 \<le> c" "c < portMax g"
    and pc: "portCycle g = word_of_int c"
  shows "nextPort g = (word_of_int (cyc (portMin g) (portMax g) c),
                       g\<lparr>portCycle := word_of_int (cyc (portMin g) (portMax g) c)\<rparr>)"
proof (cases "c + 1 = portMax g")
  case True
  have "portCycle g + 1 = word_of_int (portMax g)"
    unfolding True [symmetric] by (simp add: pc)
  with True show ?thesis
    by (simp add: nextPort_def cyc_def Let_def)
next
  case False
  have inc: "portCycle g + 1 = word_of_int (c + 1)"
    by (simp add: pc)
  show ?thesis
  proof (cases "(word_of_int (c + 1) :: 16 word) = word_of_int (portMax g)")
    case neq: False
    with False show ?thesis
      by (simp add: nextPort_def inc cyc_def Let_def del: of_int_add)
  next
    case eq: True
    have b: "0 \<le> c + 1" "c + 1 < 65536" "c + 1 < portMax g"
      using r c False by (auto simp: port_range_def)
    have "portMax g = 65536"
    proof (rule ccontr)
      assume "portMax g \<noteq> 65536"
      then have "portMax g < 65536" "0 \<le> portMax g"
        using r by (auto simp: port_range_def)
      with eq b have "c + 1 = portMax g"
        by (simp add: word16_of_int_eq_iff del: of_int_add)
      with False show False by simp
    qed
    with eq have "(word_of_int (c + 1) :: 16 word) = 0"
      by simp
    then have "(word_of_int (c + 1) :: 16 word) = word_of_int 0"
      by simp
    with b have "c + 1 = 0"
      by (simp only: word16_of_int_eq_iff [of "c + 1" 0])
    then have "c + 1 = portMin g"
      using r c by (auto simp: port_range_def)
    with False eq show ?thesis
      by (simp add: nextPort_def inc cyc_def Let_def del: of_int_add)
  qed
qed

lemma cyc_bounds:
  "lo < hi \<Longrightarrow> lo - 1 \<le> c \<Longrightarrow> c < hi \<Longrightarrow> lo \<le> cyc lo hi c \<and> cyc lo hi c < hi"
  by (auto simp: cyc_def)

lemma nextPorts_cyc_seq:
  assumes "port_range (portMin g) (portMax g)"
    and "portMin g - 1 \<le> c" "c < portMax g"
    and "portCycle g = word_of_int c"
  shows "map uint (fst (nextPorts n g)) = cyc_seq (portMin g) (portMax g) n c"
  using assms
proof (induction n arbitrary: g c)
  case 0
  then show ?case by simp
next
  case (Suc n)
  let ?c' = "cyc (portMin g) (portMax g) c"
  let ?g' = "g\<lparr>portCycle := word_of_int ?c'\<rparr>"
  have step: "nextPort g = (word_of_int ?c', ?g')"
    using Suc.prems by (rule nextPort_step)
  have bnd: "portMin g \<le> ?c'" "?c' < portMax g"
    using cyc_bounds [of "portMin g" "portMax g" c] Suc.prems
    by (auto simp: port_range_def)
  have rng: "0 \<le> ?c'" "?c' < 65536"
    using bnd Suc.prems(1) by (auto simp: port_range_def)
  have u: "uint (word_of_int ?c' :: 16 word) = ?c'"
    using rng by (simp add: uint_word_of_int take_bit_eq_mod)
  have ih: "map uint (fst (nextPorts n ?g')) = cyc_seq (portMin ?g') (portMax ?g') n ?c'"
    by (rule Suc.IH) (use Suc.prems bnd in auto)
  show ?case
    using ih u by (simp add: step split_beta)
qed

lemma cyc_seq_wrap:
  "c + int n + 1 = hi \<Longrightarrow> cyc_seq lo hi (Suc n) c = [c + 1..hi - 1] @ [lo]"
proof (induction n arbitrary: c)
  case 0
  then show ?case by (simp add: cyc_def)
next
  case (Suc n)
  have ne: "c + 1 \<noteq> hi"
    using Suc.prems by simp
  have ih: "cyc_seq lo hi (Suc n) (c + 1) = [c + 1 + 1..hi - 1] @ [lo]"
    by (rule Suc.IH) (use Suc.prems in simp)
  have up: "[c + 1..hi - 1] = (c + 1) # [c + 1 + 1..hi - 1]"
    using Suc.prems by (simp add: upto_rec1)
  have "cyc_seq lo hi (Suc (Suc n)) c = (c + 1) # cyc_seq lo hi (Suc n) (c + 1)"
    using ne by (simp add: cyc_def)
  then show ?case
    using ih up by simp
qed

lemma uint_word16_of_int: "0 \<le> c \<Longrightarrow> c < 65536 \<Longrightarrow> uint (word_of_int c :: 16 word) = c"
  by (simp add: uint_word_of_int take_bit_eq_mod)

lemma cursor_ok_position:
  assumes "port_range (portMin g) (portMax g)" and "cursor_ok g"
  obtains c where "portCycle g = word_of_int c" "portMin g - 1 \<le> c" "c < portMax g"
    "portMin g \<le> c \<longrightarrow> uint (portCycle g) = c"
proof (cases "portMin g \<le> uint (portCycle g) \<and> uint (portCycle g) < portMax g")
  case True
  show ?thesis
    by (rule that [of "uint (portCycle g)"]) (use True in simp_all)
next
  case False
  with assms(2) have pc: "portCycle g = word_of_int (portMin g - 1)"
    by (simp add: cursor_ok_def)
  show ?thesis
  proof (rule that [of "portMin g - 1"])
    show "portCycle g = word_of_int (portMin g - 1)" by (rule pc)
    show "portMin g - 1 \<le> portMin g - 1" by simp
    show "portMin g - 1 < portMax g"
      using assms(1) by (simp add: port_range_def)
    show "portMin g \<le> portMin g - 1 \<longrightarrow> uint (portCycle g) = portMin g - 1" by simp
  qed
qed

lemma nextPort_keeps:
  "portMin (snd (nextPort g)) = portMin g" "portMax (snd (nextPort g)) = portMax g"
  "portMap (snd (nextPort g)) = portMap g" "verbose (snd (nextPort g)) = verbose g"
  "portCycle (snd (nextPort g)) = fst (nextPort g)"
  by (simp_all add: nextPort_def Let_def)

lemma nextPort_in_range:
  assumes r: "port_range (portMin g) (portMax g)" and ok: "cursor_ok g"
  shows "portMin g \<le> uint (fst (nextPort g))" "uint (fst (nextPort g)) < portMax g"
    "cursor_ok (snd (nextPort g))"
proof -
  from r ok obtain c where c: "portCycle g = word_of_int c" "portMin g - 1 \<le> c" "c < portMax g"
    by (rule cursor_ok_position)
  let ?c' = "cyc (portMin g) (portMax g) c"
  have step: "nextPort g = (word_of_int ?c', g\<lparr>portCycle := word_of_int ?c'\<rparr>)"
    using r c(2,3,1) by (rule nextPort_step)
  have bnd: "portMin g \<le> ?c'" "?c' < portMax g"
    using cyc_bounds [of "portMin g" "portMax g" c] r c by (auto simp: port_range_def)
  then have u: "uint (word_of_int ?c' :: 16 word) = ?c'"
    using r by (intro uint_word16_of_int) (auto simp: port_range_def)
  show "portMin g \<le> uint (fst (nextPort g))" "uint (fst (nextPort g)) < portMax g"
    using bnd u by (simp_all add: step)
  then show "cursor_ok (snd (nextPort g))"
    by (simp add: cursor_ok_def nextPort_keeps)
qed

lemma nextPort_value:
  assumes r: "port_range (portMin g) (portMax g)"
    and c: "portMin g \<le> uint (portCycle g)" "uint (portCycle g) < portMax g"
  shows "uint (fst (nextPort g))
         = (if uint (portCycle g) + 1 = portMax g then portMin g else uint (portCycle g) + 1)"
proof -
  let ?c = "uint (portCycle g)"
  let ?c' = "cyc (portMin g) (portMax g) ?c"
  have step: "nextPort g = (word_of_int ?c', g\<lparr>portCycle := word_of_int ?c'\<rparr>)"
    by (rule nextPort_step) (use r c in simp_all)
  have bnd: "portMin g \<le> ?c'" "?c' < portMax g"
    using cyc_bounds [of "portMin g" "portMax g" ?c] r c by (auto simp: port_range_def)
  then have "uint (word_of_int ?c' :: 16 word) = ?c'"
    using r by (intro uint_word16_of_int) (auto simp: port_range_def)
  then show ?thesis
    by (simp add: step cyc_def)
qed

lemma nextPort_first:
  assumes r: "port_range (portMin g) (portMax g)"
    and c: "portCycle g = word_of_int (portMin g) - 1"
  shows "uint (fst (nextPort g)) = portMin g"
proof -
  let ?c' = "cyc (portMin g) (portMax g) (portMin g - 1)"
  have step: "nextPort g = (word_of_int ?c', g\<lparr>portCycle := word_of_int ?c'\<rparr>)"
    by (rule nextPort_step) (use r c in \<open>simp_all add: port_range_def\<close>)
  have eq: "?c' = portMin g"
    using r by (simp add: cyc_def port_range_def)
  have "uint (word_of_int (portMin g) :: 16 word) = portMin g"
    using r by (intro uint_word16_of_int) (auto simp: port_range_def)
  then show ?thesis
    by (simp add: step eq)
qed

lemma nextPorts_keeps:
  "portMin (snd (nextPorts n g)) = portMin g \<and> portMax (snd (nextPorts n g)) = portMax g"
proof (induction n arbitrary: g)
  case 0
  then show ?case by simp
next
  case (Suc n)
  from Suc [of "snd (nextPort g)"] show ?case
    by (simp add: split_beta nextPort_keeps)
qed

lemma nextPorts_cursor:
  assumes "port_range (portMin g) (portMax g)" and "cursor_ok g"
  shows "cursor_ok (snd (nextPorts n g))
         \<and> (0 < n \<longrightarrow> portMin g \<le> uint (portCycle (snd (nextPorts n g)))
                     \<and> uint (portCycle (snd (nextPorts n g))) < portMax g)"
  using assms
proof (induction n arbitrary: g)
  case 0
  then show ?case by simp
next
  case (Suc n)
  let ?g1 = "snd (nextPort g)"
  have k: "portMin ?g1 = portMin g" "portMax ?g1 = portMax g"
    by (simp_all add: nextPort_keeps)
  have ok1: "cursor_ok ?g1"
    and b1: "portMin g \<le> uint (portCycle ?g1)" "uint (portCycle ?g1) < portMax g"
    using nextPort_in_range [OF Suc.prems] by (simp_all add: nextPort_keeps)
  have ih: "cursor_ok (snd (nextPorts n ?g1))
         \<and> (0 < n \<longrightarrow> portMin g \<le> uint (portCycle (snd (nextPorts n ?g1)))
                     \<and> uint (portCycle (snd (nextPorts n ?g1))) < portMax g)"
    using Suc.IH [of ?g1] Suc.prems(1) ok1 by (simp add: k)
  have s: "snd (nextPorts (Suc n) g) = snd (nextPorts n ?g1)"
    by (simp add: split_beta)
  show ?case
    unfolding s using ih b1 by (cases n) auto
qed

lemma nextPorts_cong:
  "portCycle g = portCycle h \<Longrightarrow> portMin g = portMin h \<Longrightarrow> portMax g = portMax h \<Longrightarrow>
   fst (nextPorts n g) = fst (nextPorts n h)"
proof (induction n arbitrary: g h)
  case 0
  then show ?case by simp
next
  case (Suc n)
  have p: "fst (nextPort g) = fst (nextPort h)"
    using Suc.prems by (simp add: nextPort_def Let_def)
  have "fst (nextPorts n (snd (nextPort g))) = fst (nextPorts n (snd (nextPort h)))"
    by (rule Suc.IH) (use Suc.prems p in \<open>simp_all add: nextPort_keeps\<close>)
  with p show ?case
    by (simp add: split_beta)
qed

lemma cyc_seq_mod:
  assumes "lo < hi"
  shows "lo - 1 \<le> c \<Longrightarrow> c < hi \<Longrightarrow>
    cyc_seq lo hi n c = map (\<lambda>j. lo + (c - lo + int j) mod (hi - lo)) [1..<Suc n]"
proof (induction n arbitrary: c)
  case 0
  then show ?case by simp
next
  case (Suc n)
  let ?K = "hi - lo"
  let ?c' = "cyc lo hi c"
  have c': "?c' = lo + (c - lo + 1) mod ?K"
  proof (cases "c + 1 = hi")
    case True
    then have e: "c - lo + 1 = ?K" by simp
    have "(c - lo + 1) mod ?K = 0"
      unfolding e by simp
    with True show ?thesis by (simp add: cyc_def)
  next
    case False
    then have "0 \<le> c - lo + 1" "c - lo + 1 < ?K"
      using Suc.prems by simp_all
    then have "(c - lo + 1) mod ?K = c - lo + 1"
      by simp
    with False show ?thesis by (simp add: cyc_def)
  qed
  have bnd: "lo - 1 \<le> ?c'" "?c' < hi"
    using cyc_bounds [OF assms Suc.prems] by simp_all
  have shift: "(?c' - lo + int j) mod ?K = (c - lo + int (Suc j)) mod ?K" for j
  proof -
    have "(?c' - lo + int j) mod ?K = ((c - lo + 1) mod ?K + int j) mod ?K"
      by (simp add: c')
    also have "\<dots> = (c - lo + 1 + int j) mod ?K"
      by (rule mod_add_left_eq)
    also have "c - lo + 1 + int j = c - lo + int (Suc j)"
      by simp
    finally show ?thesis .
  qed
  have "cyc_seq lo hi n ?c' = map (\<lambda>j. lo + (?c' - lo + int j) mod ?K) [1..<Suc n]"
    by (rule Suc.IH [OF bnd])
  also have "\<dots> = map (\<lambda>j. lo + (c - lo + int (Suc j)) mod ?K) [1..<Suc n]"
    by (simp only: shift)
  also have "\<dots> = map (\<lambda>j. lo + (c - lo + int j) mod ?K) (map Suc [1..<Suc n])"
    by (simp add: comp_def)
  also have "map Suc [1..<Suc n] = [2..<Suc (Suc n)]"
    by (simp only: map_Suc_upt) (simp add: numeral_2_eq_2)
  finally have tl: "cyc_seq lo hi n ?c'
      = map (\<lambda>j. lo + (c - lo + int j) mod ?K) [2..<Suc (Suc n)]" .
  have "[1..<Suc (Suc n)] = 1 # [2..<Suc (Suc n)]"
    by (simp add: upt_conv_Cons numeral_2_eq_2)
  then show ?case
    using tl c' by simp
qed

lemma cyc_seq_distinct:
  assumes "lo < hi" "lo - 1 \<le> c" "c < hi" "int n \<le> hi - lo"
  shows "distinct (cyc_seq lo hi n c)"
proof -
  let ?K = "hi - lo"
  let ?f = "\<lambda>j. lo + (c - lo + int j) mod ?K"
  have "inj_on ?f (set [1..<Suc n])"
  proof (rule inj_onI)
    fix i j
    assume i: "i \<in> set [1..<Suc n]" and j: "j \<in> set [1..<Suc n]" and e: "?f i = ?f j"
    from e have "(c - lo + int i) mod ?K = (c - lo + int j) mod ?K"
      by simp
    then have "?K dvd (c - lo + int i) - (c - lo + int j)"
      by (simp add: mod_eq_dvd_iff)
    then have d: "?K dvd int i - int j"
      by simp
    have "\<bar>int i - int j\<bar> < ?K"
      using i j assms(4) by auto
    with d have "int i - int j = 0"
      using zdvd_not_zless [of "\<bar>int i - int j\<bar>" ?K] by (cases "int i - int j = 0") auto
    then show "i = j" by simp
  qed
  then have "distinct (map ?f [1..<Suc n])"
    by (simp add: distinct_map)
  then show ?thesis
    using cyc_seq_mod [OF assms(1-3), of n] by simp
qed

lemma nextPorts_distinct:
  assumes r: "port_range (portMin g) (portMax g)" and ok: "cursor_ok g"
    and n: "int n \<le> portMax g - portMin g"
  shows "distinct (fst (nextPorts n g))"
proof -
  from r ok obtain c where c: "portCycle g = word_of_int c" "portMin g - 1 \<le> c" "c < portMax g"
    by (rule cursor_ok_position)
  have "map uint (fst (nextPorts n g)) = cyc_seq (portMin g) (portMax g) n c"
    using r c(2,3,1) by (rule nextPorts_cyc_seq)
  moreover have "distinct (cyc_seq (portMin g) (portMax g) n c)"
    by (rule cyc_seq_distinct) (use r c n in \<open>simp_all add: port_range_def\<close>)
  ultimately have "distinct (map uint (fst (nextPorts n g)))"
    by simp
  then show ?thesis
    by (simp add: distinct_map)
qed

lemma nextPorts_length: "length (fst (nextPorts n g)) = n"
  by (induction n arbitrary: g) (simp_all add: split_beta)

section \<open>Lemmas about \<open>Cycle\<close> and the environment loop\<close>

lemma Cycle_fst: "fst (Cycle k g) = fst (nextPort g)"
  by (simp add: Cycle_def split_beta)

lemma Cycle_keeps:
  "portMin (snd (Cycle k g)) = portMin g" "portMax (snd (Cycle k g)) = portMax g"
  "verbose (snd (Cycle k g)) = verbose g"
  "portCycle (snd (Cycle k g)) = fst (nextPort g)"
  by (simp_all add: Cycle_def split_beta nextPort_keeps)

lemma Cycle_portMap:
  "portMap (snd (Cycle k g)) x =
     (if x = k then map_option (\<lambda>p. p\<lparr>dest := ucast (fst (nextPort g))\<rparr>) (portMap g x)
      else portMap g x)"
  by (simp add: Cycle_def split_beta nextPort_keeps)

lemma Cycle_dom: "dom (portMap (snd (Cycle k g))) = dom (portMap g)"
  by (auto simp: Cycle_portMap dom_def)

lemma Cycle_cursor_ok:
  "port_range (portMin g) (portMax g) \<Longrightarrow> cursor_ok g \<Longrightarrow> cursor_ok (snd (Cycle k g))"
  using nextPort_in_range [of g]
  by (simp add: cursor_ok_def Cycle_keeps)

lemma cycled_nextPorts:
  "cycled ks g = fst (nextPorts (length (filter (\<lambda>k. k \<in> dom (portMap g)) ks)) g)"
proof (induction ks arbitrary: g)
  case Nil
  then show ?case by simp
next
  case (Cons k ks)
  show ?case
  proof (cases "portMap g k")
    case None
    then have "k \<notin> dom (portMap g)" by auto
    with None Cons.IH [of g] show ?thesis by simp
  next
    case (Some mapper)
    let ?g1 = "snd (Cycle k g)"
    let ?n = "length (filter (\<lambda>k. k \<in> dom (portMap g)) ks)"
    have "cycled ks ?g1 = fst (nextPorts ?n ?g1)"
      using Cons.IH [of ?g1] by (simp add: Cycle_dom)
    also have "\<dots> = fst (nextPorts ?n (snd (nextPort g)))"
      by (rule nextPorts_cong) (simp_all add: Cycle_keeps nextPort_keeps)
    finally have "cycled ks ?g1 = fst (nextPorts ?n (snd (nextPort g)))" .
    moreover have "k \<in> dom (portMap g)"
      using Some by auto
    ultimately show ?thesis
      using Some by (simp add: split_beta Cycle_fst)
  qed
qed

lemma cycled_distinct:
  assumes "port_range (portMin g) (portMax g)" and "cursor_ok g"
    and "int (length ks) \<le> portMax g - portMin g"
  shows "distinct (cycled ks g)"
proof -
  let ?n = "length (filter (\<lambda>k. k \<in> dom (portMap g)) ks)"
  have "int ?n \<le> int (length ks)"
    by (simp only: of_nat_le_iff length_filter_le)
  with assms(3) have "int ?n \<le> portMax g - portMin g"
    by (rule order_trans [rotated])
  with assms(1,2) have "distinct (fst (nextPorts ?n g))"
    by (rule nextPorts_distinct)
  then show ?thesis
    by (simp add: cycled_nextPorts)
qed

lemma env_loop_keeps:
  "portMin (snd (env_loop ks cenv g)) = portMin g
   \<and> portMax (snd (env_loop ks cenv g)) = portMax g
   \<and> verbose (snd (env_loop ks cenv g)) = verbose g
   \<and> dom (portMap (snd (env_loop ks cenv g))) = dom (portMap g)"
proof (induction ks arbitrary: cenv g)
  case Nil
  then show ?case by simp
next
  case (Cons k ks)
  show ?case
  proof (cases "portMap g k")
    case None
    with Cons.IH [of cenv g] show ?thesis by simp
  next
    case (Some mapper)
    from Cons.IH [of "cenv @ [env_entry (env mapper) (fst (Cycle k g))]" "snd (Cycle k g)"]
    show ?thesis
      using Some by (simp add: split_beta Cycle_keeps Cycle_dom)
  qed
qed

lemma env_loop_cursor_ok:
  "port_range (portMin g) (portMax g) \<Longrightarrow> cursor_ok g \<Longrightarrow>
   cursor_ok (snd (env_loop ks cenv g))"
proof (induction ks arbitrary: cenv g)
  case Nil
  then show ?case by simp
next
  case (Cons k ks)
  show ?case
  proof (cases "portMap g k")
    case None
    with Cons show ?thesis by simp
  next
    case (Some mapper)
    have "cursor_ok (snd (env_loop ks (cenv @ [env_entry (env mapper) (fst (Cycle k g))])
                      (snd (Cycle k g))))"
      by (rule Cons.IH) (use Cons.prems in \<open>simp_all add: Cycle_keeps Cycle_cursor_ok\<close>)
    with Some show ?thesis
      by (simp add: split_beta)
  qed
qed

lemma cycled_length:
  "set ks \<subseteq> dom (portMap g) \<Longrightarrow> length (cycled ks g) = length ks"
proof -
  assume "set ks \<subseteq> dom (portMap g)"
  then have "filter (\<lambda>k. k \<in> dom (portMap g)) ks = ks"
    by (simp add: filter_id_conv subset_iff)
  then show ?thesis
    by (simp add: cycled_nextPorts nextPorts_length)
qed




lemma runner_keeps_cursor:
  "port_range (portMin g) (portMax g) \<Longrightarrow> cursor_ok g \<Longrightarrow>
   cursor_ok (snd (snd (runner args environ its g)))
   \<and> portMin (snd (snd (runner args environ its g))) = portMin g
   \<and> portMax (snd (snd (runner args environ its g))) = portMax g"
proof (induction its arbitrary: g)
  case Nil
  then show ?case by simp
next
  case (Cons it its)
  let ?g1 = "snd (env_loop (order it) environ g)"
  have k: "portMin ?g1 = portMin g" "portMax ?g1 = portMax g"
    using env_loop_keeps [of "order it" environ g] by simp_all
  have ok1: "cursor_ok ?g1"
    using Cons.prems by (rule env_loop_cursor_ok)
  have ih: "cursor_ok (snd (snd (runner args environ its ?g1)))
   \<and> portMin (snd (snd (runner args environ its ?g1))) = portMin g
   \<and> portMax (snd (snd (runner args environ its ?g1))) = portMax g"
    using Cons.IH [of ?g1] Cons.prems(1) ok1 by (simp add: k)
  show ?case
    using ih ok1 k Cons.prems(2)
    by (simp add: Let_def split_beta split: option.split)
qed

section \<open>Lemmas about the trace of \<open>runner\<close>\<close>




declare runner.simps [simp del]


section \<open>Startup lemmas\<close>

lemma addrEnv_loop_fields:
  "addrEnv_loop w i xs g gos = Started g' gos' \<Longrightarrow>
   portCycle g' = portCycle g \<and> portMin g' = portMin g \<and> portMax g' = portMax g
   \<and> verbose g' = verbose g"
proof (induction xs arbitrary: i g gos)
  case Nil
  then show ?case by simp
next
  case (Cons x xs)
  from Cons.prems obtain port p r where
    rec: "addrEnv_loop w (Suc i) xs
            (g\<lparr>portMap := (portMap g)(word_of_int port \<mapsto> p)\<rparr>) (gos @ [r]) = Started g' gos'"
    by (auto simp: Let_def split: if_splits option.splits prod.splits)
  from Cons.IH [OF rec] show ?case by simp
qed

lemma init_started_fields:
  assumes "started_state (init w nargs g0) = Some g"
  shows "portCycle g = word_of_int (portMin g0) - 1 \<and> portMin g = portMin g0
         \<and> portMax g = portMax g0 \<and> verbose g = verbose g0"
proof -
  from assms obtain gos where "init w nargs g0 = Started g gos"
    by (cases "init w nargs g0") auto
  then have "addrEnv_loop w 0 (Split (addrEnvs g0) CHR '','')
               (g0\<lparr>portCycle := word_of_int (portMin g0) - 1\<rparr>) [] = Started g gos"
    by (simp add: init_def split: if_splits)
  from addrEnv_loop_fields [OF this] show ?thesis by simp
qed

lemma nextPorts_two:
  "fst (nextPorts 2 g) = [fst (nextPort g), fst (nextPort (snd (nextPort g)))]"
  by (simp add: numeral_2_eq_2 split_beta)

lemma nextPorts_second:
  "map uint (fst (nextPorts (Suc (Suc n)) g)) ! 1 = uint (fst (nextPort (snd (nextPort g))))"
  by (simp add: split_beta)

lemma dec_8080: "dec 8080 = ''8080''" "dec (unat (8080 :: 16 word)) = ''8080''"
proof -
  show a: "dec 8080 = ''8080''"
    by (simp add: dec.simps)
  have "unat (8080 :: 16 word) = 8080"
    by simp
  then show "dec (unat (8080 :: 16 word)) = ''8080''"
    by (simp only: a)
qed

lemma dec_50000: "dec 50000 = ''50000''" "dec (unat (50000 :: 32 word)) = ''50000''"
proof -
  show a: "dec 50000 = ''50000''"
    by (simp add: dec.simps)
  have "unat (50000 :: 32 word) = 50000"
    by simp
  then show "dec (unat (50000 :: 32 word)) = ''50000''"
    by (simp only: a)
qed

lemma newPortForwarder_fst:
  "fst (newPortForwarder w e s) = \<lparr>env = e, src = s, dest = 0\<rparr>"
  by (simp add: newPortForwarder_def Let_def)

lemma addrEnv_loop_fatal_of:
  "fatal_of (addrEnv_loop w i xs g gos) = fatal_of (addrEnv_loop w' i' xs g' gos')"
proof (induction xs arbitrary: i i' g g' gos gos')
  case Nil
  then show ?case by (simp add: fatal_of_def)
next
  case (Cons x xs)
  show ?case
  proof (cases "length (SplitN x CHR '':'' 2) \<noteq> 2")
    case True
    then show ?thesis by (simp add: fatal_of_def)
  next
    case two: False
    show ?thesis
    proof (cases "Atoi (SplitN x CHR '':'' 2 ! 1)")
      case None
      with two show ?thesis by (simp add: fatal_of_def)
    next
      case (Some port)
      with two show ?thesis
        by (simp add: split_beta Let_def) (rule Cons.IH)
    qed
  qed
qed

lemma addrEnv_loop_started_state:
  "started_state (addrEnv_loop w i xs g gos) = started_state (addrEnv_loop w' i' xs g gos')"
proof (induction xs arbitrary: i i' g gos gos')
  case Nil
  then show ?case by simp
next
  case (Cons x xs)
  show ?case
  proof (cases "length (SplitN x CHR '':'' 2) \<noteq> 2")
    case True
    then show ?thesis by simp
  next
    case two: False
    show ?thesis
    proof (cases "Atoi (SplitN x CHR '':'' 2 ! 1)")
      case None
      with two show ?thesis by simp
    next
      case (Some port)
      with two show ?thesis
        by (simp add: split_beta Let_def newPortForwarder_fst) (rule Cons.IH)
    qed
  qed
qed

lemma SplitN_2:
  "SplitN s c 2 = (if c \<in> set s
                   then [takeWhile (\<lambda>x. x \<noteq> c) s, tl (dropWhile (\<lambda>x. x \<noteq> c) s)]
                   else [s])"
  by (simp add: numeral_2_eq_2)

lemma SplitN_no_sep: "c \<notin> set e \<Longrightarrow> SplitN e c 2 = [e]"
  by (simp add: SplitN_2)

lemma addrEnv_loop_missing_port:
  assumes "CHR '':'' \<notin> set e"
  shows "\<exists>err gos'. addrEnv_loop w i (pre @ e # post) g gos = Fatal err gos'
           \<and> (err = MissingPort \<or> err = InvalidPort)
           \<and> (pre = [] \<longrightarrow> err = MissingPort)
           \<and> length gos' \<le> length gos + length pre"
proof (induction pre arbitrary: i g gos)
  case Nil
  show ?case
    by (simp add: SplitN_no_sep [OF assms])
next
  case (Cons x pre)
  show ?case
  proof (cases "length (SplitN x CHR '':'' 2) \<noteq> 2")
    case True
    then show ?thesis by simp
  next
    case two: False
    show ?thesis
    proof (cases "Atoi (SplitN x CHR '':'' 2 ! 1)")
      case None
      with two show ?thesis by simp
    next
      case (Some port)
      let ?p = "fst (newPortForwarder (w i) (SplitN x CHR '':'' 2 ! 0) (word_of_int port))"
      let ?r = "snd (newPortForwarder (w i) (SplitN x CHR '':'' 2 ! 0) (word_of_int port))"
      from Cons.IH [of "Suc i" "g\<lparr>portMap := (portMap g)(word_of_int port \<mapsto> ?p)\<rparr>" "gos @ [?r]"]
      obtain err gos' where
        "addrEnv_loop w (Suc i) (pre @ e # post)
           (g\<lparr>portMap := (portMap g)(word_of_int port \<mapsto> ?p)\<rparr>) (gos @ [?r]) = Fatal err gos'"
        "err = MissingPort \<or> err = InvalidPort"
        "length gos' \<le> length (gos @ [?r]) + length pre"
        by blast
      with two Some show ?thesis
        by (simp add: split_beta Let_def)
    qed
  qed
qed

section \<open>Lemmas about the registry and successive spawns\<close>









lemma nextPorts_Suc_cursor:
  "portCycle (snd (nextPorts (Suc n) g)) = portCycle (snd (nextPorts n (snd (nextPort g))))"
  by (simp add: split_beta)














section \<open>Lemmas about \<open>Run\<close>\<close>

lemma accept_loop_closes_only_inbound:
  "Close (Remote r) \<notin> set (fst (accept_loop n evs))
   \<and> (\<forall>body\<in>set (fst (snd (accept_loop n evs))). Close (Remote r) \<notin> set body)"
proof (induction evs arbitrary: n)
  case Nil
  then show ?case by simp
next
  case (Cons ev evs)
  show ?case
  proof (cases ev)
    case AcceptFails
    then show ?thesis by simp
  next
    case (Accepted d ok)
    with Cons [of "Suc n"] show ?thesis
      by (simp add: split_beta Let_def read_thread_def write_thread_def)
  qed
qed

lemma Run_closes_only_inbound:
  "Close (Remote r) \<notin> set (fst (Run w p))
   \<and> (\<forall>body\<in>set (fst (snd (Run w p))). Close (Remote r) \<notin> set body)"
  using accept_loop_closes_only_inbound [of r 0 "accepts w"]
  by (simp add: Run_def split_beta)

section \<open>Claims about the allocator\<close>

text \<open>
  C1 (as amended). For a range of 16-bit ports, \<open>0 \<le> port-min < port-max \<le> 65536\<close>,
  of size \<open>K = port-max - port-min\<close>, the first \<open>K + 1\<close> calls of \<open>nextPort\<close> after
  \<open>init\<close> has returned give \<open>port-min, port-min + 1, ..., port-max - 1, port-min\<close>.
\<close>

theorem nextPort_cycles_with_wraparound:
  assumes "started_state (init w nargs g0) = Some g"
    and "port_range (portMin g0) (portMax g0)"
  shows "map uint (fst (nextPorts (Suc (nat (portMax g0 - portMin g0))) g))
         = [portMin g0..portMax g0 - 1] @ [portMin g0]"
proof -
  from init_started_fields [OF assms(1)]
  have f: "portCycle g = word_of_int (portMin g0 - 1)" "portMin g = portMin g0"
    "portMax g = portMax g0"
    by simp_all
  have lt: "portMin g0 < portMax g0"
    using assms(2) by (simp add: port_range_def)
  have "map uint (fst (nextPorts (Suc (nat (portMax g0 - portMin g0))) g))
        = cyc_seq (portMin g) (portMax g) (Suc (nat (portMax g0 - portMin g0))) (portMin g0 - 1)"
    by (rule nextPorts_cyc_seq) (use f assms(2) lt in simp_all)
  also have "\<dots> = [portMin g0 - 1 + 1..portMax g0 - 1] @ [portMin g0]"
    unfolding f by (rule cyc_seq_wrap) (use lt in simp)
  finally show ?thesis by simp
qed

theorem nextPort_cycles_with_wraparound_witness:
  "port_range 50000 50003
   \<and> started_state (init (\<lambda>i. \<lparr>listen_ok = True, accepts = []\<rparr>) 1
        (parsed False ''APP_ADDR:8080'' 50000 50003))
     = Some \<lparr>verbose = False, addrEnvs = ''APP_ADDR:8080'', portMin = 50000, portMax = 50003,
             portCycle = 49999,
             portMap = [8080 \<mapsto> \<lparr>env = ''APP_ADDR'', src = 8080, dest = 0\<rparr>]\<rparr>
   \<and> map uint (fst (nextPorts 4
        \<lparr>verbose = False, addrEnvs = ''APP_ADDR:8080'', portMin = 50000, portMax = 50003,
         portCycle = 49999,
         portMap = [8080 \<mapsto> \<lparr>env = ''APP_ADDR'', src = 8080, dest = 0\<rparr>]\<rparr>))
     = [50000, 50001, 50002, 50000]"
proof -
  let ?w = "\<lambda>i::nat. \<lparr>listen_ok = True, accepts = []\<rparr>"
  let ?cfg = "parsed False ''APP_ADDR:8080'' 50000 50003"
  let ?g = "\<lparr>verbose = False, addrEnvs = ''APP_ADDR:8080'', portMin = 50000, portMax = 50003,
             portCycle = 49999,
             portMap = [8080 \<mapsto> \<lparr>env = ''APP_ADDR'', src = 8080, dest = 0\<rparr>]\<rparr>"
  have r: "port_range (portMin ?cfg) (portMax ?cfg)"
    by (simp add: port_range_def parsed_def)
  have i: "started_state (init ?w 1 ?cfg) = Some ?g"
    by (simp add: init_def parsed_def SplitN_2 Atoi_def digit_val_def
        newPortForwarder_def Let_def)
  have n: "Suc (nat (portMax ?cfg - portMin ?cfg)) = 4"
    by (simp add: parsed_def)
  have u: "[portMin ?cfg..portMax ?cfg - 1] @ [portMin ?cfg] = [50000, 50001, 50002, 50000]"
    by (simp add: parsed_def upto_rec1)
  from nextPort_cycles_with_wraparound [OF i r]
  have "map uint (fst (nextPorts 4 ?g)) = [50000, 50001, 50002, 50000]"
    unfolding n u .
  with r i show ?thesis
    by (simp add: parsed_def)
qed

text \<open>
  The claim as stated, for any configured range, fails where the range does not fit
  16 bits: with \<open>port-min = 0\<close> and \<open>port-max = 65537\<close> the cursor is compared with
  \<open>uint16(65537) = 1\<close>, and the second call already returns \<open>0\<close> again.
\<close>

theorem nextPort_cycles_counterexample:
  "map_option (\<lambda>g. map uint (fst (nextPorts (Suc (nat (65537 - 0))) g)))
     (started_state (init (\<lambda>i. \<lparr>listen_ok = True, accepts = []\<rparr>) 1
        (parsed False ''APP_ADDR:8080'' 0 65537)))
   \<noteq> Some ([0..65537 - 1] @ [0])
   \<and> map_option (\<lambda>g. map uint (fst (nextPorts 2 g)))
     (started_state (init (\<lambda>i. \<lparr>listen_ok = True, accepts = []\<rparr>) 1
        (parsed False ''APP_ADDR:8080'' 0 65537)))
   = Some [0, 0]"
proof -
  let ?w = "\<lambda>i::nat. \<lparr>listen_ok = True, accepts = []\<rparr>"
  let ?g = "\<lparr>verbose = False, addrEnvs = ''APP_ADDR:8080'', portMin = 0, portMax = 65537,
             portCycle = 65535,
             portMap = [8080 \<mapsto> \<lparr>env = ''APP_ADDR'', src = 8080, dest = 0\<rparr>]\<rparr>"
  have i: "started_state (init ?w 1 (parsed False ''APP_ADDR:8080'' 0 65537)) = Some ?g"
    by (simp add: init_def parsed_def SplitN_2 Atoi_def digit_val_def
        newPortForwarder_def Let_def)
  have two: "map uint (fst (nextPorts 2 ?g)) = [0, 0]"
    by (simp add: nextPorts_two nextPort_def word16_65537)
  have n: "Suc (nat (65537 - 0)) = Suc (Suc 65536)"
    by simp
  have snd0: "map uint (fst (nextPorts (Suc (nat (65537 - 0))) ?g)) ! 1 = 0"
    unfolding n nextPorts_second by (simp add: nextPort_def word16_65537)
  have snd1: "([0..65537 - 1] @ [0::int]) ! 1 = 1"
    by (simp add: nth_append nth_upto)
  have "map uint (fst (nextPorts (Suc (nat (65537 - 0))) ?g)) \<noteq> [0..65537 - 1] @ [0]"
    using snd0 snd1 by (metis zero_neq_one)
  with two show ?thesis
    unfolding i by simp
qed

text \<open>
  C8 (as amended). For a range of 16-bit ports, \<open>init\<close> leaves the cursor one below
  \<open>port-min\<close> (modulo \<open>2^16\<close>), outside the range, and the first call of \<open>nextPort\<close>
  returns \<open>port-min\<close>. After every later call the cursor lies in \<open>[port-min, port-max)\<close>,
  and the next call advances it by one, wraps it to \<open>port-min\<close> when it reaches
  \<open>port-max\<close>, and returns the new cursor.
\<close>

theorem cursor_in_range_after_first_call:
  assumes "started_state (init w nargs g0) = Some g"
    and "port_range (portMin g0) (portMax g0)"
  shows "portCycle g = word_of_int (portMin g0) - 1
     \<and> fst (nextPort g) = portCycle (snd (nextPort g))
     \<and> uint (fst (nextPort g)) = portMin g0
     \<and> (0 < n \<longrightarrow>
          portMin g0 \<le> uint (portCycle (snd (nextPorts n g)))
          \<and> uint (portCycle (snd (nextPorts n g))) < portMax g0
          \<and> fst (nextPort (snd (nextPorts n g))) = portCycle (snd (nextPort (snd (nextPorts n g))))
          \<and> uint (fst (nextPort (snd (nextPorts n g))))
              = (if uint (portCycle (snd (nextPorts n g))) + 1 = portMax g0 then portMin g0
                 else uint (portCycle (snd (nextPorts n g))) + 1))"
proof -
  from init_started_fields [OF assms(1)]
  have f: "portCycle g = word_of_int (portMin g0) - 1" "portMin g = portMin g0"
    "portMax g = portMax g0"
    by simp_all
  have r: "port_range (portMin g) (portMax g)"
    using assms(2) by (simp add: f)
  have ok: "cursor_ok g"
    by (simp add: cursor_ok_def f)
  have first: "uint (fst (nextPort g)) = portMin g0"
    using nextPort_first [OF r] f by simp
  let ?g' = "snd (nextPorts n g)"
  have k: "portMin ?g' = portMin g0" "portMax ?g' = portMax g0"
    using nextPorts_keeps [of n g] by (simp_all add: f)
  have later: "portMin g0 \<le> uint (portCycle ?g') \<and> uint (portCycle ?g') < portMax g0
      \<and> uint (fst (nextPort ?g'))
              = (if uint (portCycle ?g') + 1 = portMax g0 then portMin g0
                 else uint (portCycle ?g') + 1)" if "0 < n"
  proof -
    have b: "portMin g0 \<le> uint (portCycle ?g')" "uint (portCycle ?g') < portMax g0"
      using nextPorts_cursor [OF r ok, of n] that by (simp_all add: f)
    have "uint (fst (nextPort ?g'))
        = (if uint (portCycle ?g') + 1 = portMax ?g' then portMin ?g' else uint (portCycle ?g') + 1)"
      by (rule nextPort_value) (use b assms(2) in \<open>simp_all add: k\<close>)
    with b show ?thesis by (simp add: k)
  qed
  show ?thesis
    using f(1) first later by (simp add: nextPort_keeps)
qed

theorem cursor_in_range_after_first_call_witness:
  "port_range 50000 50003
   \<and> started_state (init (\<lambda>i. \<lparr>listen_ok = True, accepts = []\<rparr>) 1
        (parsed False ''APP_ADDR:8080'' 50000 50003))
     = Some \<lparr>verbose = False, addrEnvs = ''APP_ADDR:8080'', portMin = 50000, portMax = 50003,
             portCycle = 49999,
             portMap = [8080 \<mapsto> \<lparr>env = ''APP_ADDR'', src = 8080, dest = 0\<rparr>]\<rparr>
   \<and> uint (portCycle (snd (nextPorts 3
        \<lparr>verbose = False, addrEnvs = ''APP_ADDR:8080'', portMin = 50000, portMax = 50003,
         portCycle = 49999,
         portMap = [8080 \<mapsto> \<lparr>env = ''APP_ADDR'', src = 8080, dest = 0\<rparr>]\<rparr>))) = 50002
   \<and> uint (fst (nextPort (snd (nextPorts 3
        \<lparr>verbose = False, addrEnvs = ''APP_ADDR:8080'', portMin = 50000, portMax = 50003,
         portCycle = 49999,
         portMap = [8080 \<mapsto> \<lparr>env = ''APP_ADDR'', src = 8080, dest = 0\<rparr>]\<rparr>)))) = 50000"
proof -
  let ?w = "\<lambda>i::nat. \<lparr>listen_ok = True, accepts = []\<rparr>"
  let ?cfg = "parsed False ''APP_ADDR:8080'' 50000 50003"
  let ?g = "\<lparr>verbose = False, addrEnvs = ''APP_ADDR:8080'', portMin = 50000, portMax = 50003,
             portCycle = 49999,
             portMap = [8080 \<mapsto> \<lparr>env = ''APP_ADDR'', src = 8080, dest = 0\<rparr>]\<rparr>"
  have r: "port_range (portMin ?cfg) (portMax ?cfg)"
    by (simp add: port_range_def parsed_def)
  have i: "started_state (init ?w 1 ?cfg) = Some ?g"
    by (simp add: init_def parsed_def SplitN_2 Atoi_def digit_val_def
        newPortForwarder_def Let_def)
  have c: "uint (portCycle (snd (nextPorts 3 ?g))) = 50002"
    by (simp add: numeral_3_eq_3 nextPort_def)
  from cursor_in_range_after_first_call [OF i r, of 3]
  have "uint (fst (nextPort (snd (nextPorts 3 ?g)))) = 50000"
    unfolding c by (simp add: parsed_def nextPort_keeps)
  with r i c show ?thesis
    by (simp add: parsed_def)
qed

text \<open>
  The claim as stated includes the state before the first call: there the cursor is
  \<open>49999\<close> for \<open>port-min = 50000\<close>, below the range.
\<close>

theorem cursor_initially_below_range_counterexample:
  "map_option (\<lambda>g. portMin g \<le> uint (portCycle g) \<and> uint (portCycle g) < portMax g)
     (started_state (init (\<lambda>i. \<lparr>listen_ok = True, accepts = []\<rparr>) 1
        (parsed False ''APP_ADDR:8080'' 50000 50003)))
   = Some False
   \<and> map_option (\<lambda>g. uint (portCycle g))
     (started_state (init (\<lambda>i. \<lparr>listen_ok = True, accepts = []\<rparr>) 1
        (parsed False ''APP_ADDR:8080'' 50000 50003)))
   = Some 49999"
proof -
  have "started_state (init (\<lambda>i. \<lparr>listen_ok = True, accepts = []\<rparr>) 1
          (parsed False ''APP_ADDR:8080'' 50000 50003))
        = Some \<lparr>verbose = False, addrEnvs = ''APP_ADDR:8080'', portMin = 50000,
                portMax = 50003, portCycle = 49999,
                portMap = [8080 \<mapsto> \<lparr>env = ''APP_ADDR'', src = 8080, dest = 0\<rparr>]\<rparr>"
    by (simp add: init_def parsed_def SplitN_2 Atoi_def digit_val_def
        newPortForwarder_def Let_def)
  then show ?thesis
    by simp
qed

text \<open>
  C9 (as amended). For a range of 16-bit ports, \<open>0 \<le> port-min < port-max \<le> 65536\<close>, in
  every pass of the supervisor loop (after \<open>init\<close> and any number of earlier passes)
  the \<open>Cycle()\<close> calls made for \<open>n \<le> port-max - port-min\<close> forwarders return pairwise
  distinct ports.
\<close>

theorem spawn_ports_pairwise_distinct:
  assumes "started_state (init w nargs g0) = Some g"
    and "port_range (portMin g0) (portMax g0)"
    and "int (length ks) \<le> portMax g0 - portMin g0"
  shows "distinct (cycled ks (snd (snd (runner args environ its g))))"
proof -
  from init_started_fields [OF assms(1)]
  have f: "portCycle g = word_of_int (portMin g0) - 1" "portMin g = portMin g0"
    "portMax g = portMax g0"
    by simp_all
  have r: "port_range (portMin g) (portMax g)"
    using assms(2) by (simp add: f)
  have ok: "cursor_ok g"
    by (simp add: cursor_ok_def f)
  let ?g' = "snd (snd (runner args environ its g))"
  from runner_keeps_cursor [OF r ok, of args environ its]
  have k: "cursor_ok ?g'" "portMin ?g' = portMin g0" "portMax ?g' = portMax g0"
    by (simp_all add: f)
  show ?thesis
    by (rule cycled_distinct) (use k assms(2,3) in simp_all)
qed

theorem spawn_ports_pairwise_distinct_witness:
  "port_range 50000 50003
   \<and> started_state (init (\<lambda>i. \<lparr>listen_ok = True, accepts = []\<rparr>) 1
        (parsed False ''A:8080,B:8081'' 50000 50003))
     = Some \<lparr>verbose = False, addrEnvs = ''A:8080,B:8081'', portMin = 50000, portMax = 50003,
             portCycle = 49999,
             portMap = [8080 \<mapsto> \<lparr>env = ''A'', src = 8080, dest = 0\<rparr>,
                        8081 \<mapsto> \<lparr>env = ''B'', src = 8081, dest = 0\<rparr>]\<rparr>
   \<and> int (length [8080, 8081 :: 16 word]) \<le> 50003 - 50000
   \<and> distinct (cycled [8080, 8081] (snd (snd (runner [''app''] [] []
        \<lparr>verbose = False, addrEnvs = ''A:8080,B:8081'', portMin = 50000, portMax = 50003,
         portCycle = 49999,
         portMap = [8080 \<mapsto> \<lparr>env = ''A'', src = 8080, dest = 0\<rparr>,
                    8081 \<mapsto> \<lparr>env = ''B'', src = 8081, dest = 0\<rparr>]\<rparr>))))"
proof -
  let ?w = "\<lambda>i::nat. \<lparr>listen_ok = True, accepts = []\<rparr>"
  let ?cfg = "parsed False ''A:8080,B:8081'' 50000 50003"
  let ?g = "\<lparr>verbose = False, addrEnvs = ''A:8080,B:8081'', portMin = 50000, portMax = 50003,
             portCycle = 49999,
             portMap = [8080 \<mapsto> \<lparr>env = ''A'', src = 8080, dest = 0\<rparr>,
                        8081 \<mapsto> \<lparr>env = ''B'', src = 8081, dest = 0\<rparr>]\<rparr>"
  have r: "port_range (portMin ?cfg) (portMax ?cfg)"
    by (simp add: port_range_def parsed_def)
  have i: "started_state (init ?w 1 ?cfg) = Some ?g"
    by (simp add: init_def parsed_def SplitN_2 Atoi_def digit_val_def
        newPortForwarder_def Let_def)
  have n: "int (length [8080, 8081 :: 16 word]) \<le> portMax ?cfg - portMin ?cfg"
    by (simp add: parsed_def)
  from spawn_ports_pairwise_distinct [OF i r n, of "[''app'']" "[]" "[]"]
  have "distinct (cycled [8080, 8081] (snd (snd (runner [''app''] [] [] ?g))))" .
  with r i n show ?thesis
    by (simp add: parsed_def runner.simps)
qed

text \<open>
  The claim as stated, for any \<open>n \<le> port-max - port-min\<close>, fails where the range does
  not fit 16 bits: with \<open>port-min = 0\<close>, \<open>port-max = 65537\<close> and two forwarders, both
  \<open>Cycle()\<close> calls of the first pass return port \<open>0\<close>.
\<close>

theorem spawn_ports_counterexample:
  "map_option (cycled [8080, 8081])
     (started_state (init (\<lambda>i. \<lparr>listen_ok = True, accepts = []\<rparr>) 1
        (parsed False ''A:8080,B:8081'' 0 65537)))
   = Some [0, 0]
   \<and> map_option (\<lambda>g. distinct (cycled [8080, 8081] g))
     (started_state (init (\<lambda>i. \<lparr>listen_ok = True, accepts = []\<rparr>) 1
        (parsed False ''A:8080,B:8081'' 0 65537)))
   = Some False
   \<and> int (length [8080, 8081 :: 16 word]) \<le> 65537 - 0"
proof -
  have "started_state (init (\<lambda>i. \<lparr>listen_ok = True, accepts = []\<rparr>) 1
          (parsed False ''A:8080,B:8081'' 0 65537))
        = Some \<lparr>verbose = False, addrEnvs = ''A:8080,B:8081'', portMin = 0,
                portMax = 65537, portCycle = 65535,
                portMap = [8080 \<mapsto> \<lparr>env = ''A'', src = 8080, dest = 0\<rparr>,
                           8081 \<mapsto> \<lparr>env = ''B'', src = 8081, dest = 0\<rparr>]\<rparr>"
    by (simp add: init_def parsed_def SplitN_2 Atoi_def digit_val_def
        newPortForwarder_def Let_def)
  then show ?thesis
    by (simp add: Cycle_def nextPort_def word16_65537)
qed

section \<open>Claims about the supervisor\<close>



text \<open>
  The claim as stated, one entry for each declared forwarder, fails when two pairs
  declare the same public port: for \<open>-addr-env=A:8080,B:8080\<close> two forwarders are
  started, the registry keeps the second one only, and the environment of the child
  has an entry for \<open>B\<close> and none for \<open>A\<close>.
\<close>

theorem shared_port_environment_counterexample:
  "init (\<lambda>i. \<lparr>listen_ok = (i = 0), accepts = []\<rparr>) (length [''app''])
     (parsed False ''A:8080,B:8080'' 50000 60000)
   = Started \<lparr>verbose = False, addrEnvs = ''A:8080,B:8080'', portMin = 50000,
              portMax = 60000, portCycle = 49999,
              portMap = [8080 \<mapsto> \<lparr>env = ''B'', src = 8080, dest = 0\<rparr>]\<rparr>
       [([Listen '':8080''], [], None), ([Listen '':8080''], [], Some ListenError)]
   \<and> fst (runner [''app''] [''HOME=/root'']
           [\<lparr>order = [8080], started = Some 7, pulse = False\<rparr>]
           \<lparr>verbose = False, addrEnvs = ''A:8080,B:8080'', portMin = 50000,
            portMax = 60000, portCycle = 49999,
            portMap = [8080 \<mapsto> \<lparr>env = ''B'', src = 8080, dest = 0\<rparr>]\<rparr>)
     = [Start [''app''] [''HOME=/root'', ''B=localhost:50000''] (Some 7)]"
proof -
  have dv: "dec 50000 = ''50000''"
    by (simp add: dec.simps)
  have "init (\<lambda>i. \<lparr>listen_ok = (i = 0), accepts = []\<rparr>) (length [''app''])
     (parsed False ''A:8080,B:8080'' 50000 60000)
   = Started \<lparr>verbose = False, addrEnvs = ''A:8080,B:8080'', portMin = 50000,
              portMax = 60000, portCycle = 49999,
              portMap = [8080 \<mapsto> \<lparr>env = ''B'', src = 8080, dest = 0\<rparr>]\<rparr>
       [([Listen '':8080''], [], None), ([Listen '':8080''], [], Some ListenError)]"
    by (simp add: init_def parsed_def SplitN_2 Atoi_def digit_val_def
        newPortForwarder_def Run_def Let_def dec_8080)
  moreover have "fst (runner [''app''] [''HOME=/root'']
           [\<lparr>order = [8080], started = Some 7, pulse = False\<rparr>]
           \<lparr>verbose = False, addrEnvs = ''A:8080,B:8080'', portMin = 50000,
            portMax = 60000, portCycle = 49999,
            portMap = [8080 \<mapsto> \<lparr>env = ''B'', src = 8080, dest = 0\<rparr>]\<rparr>)
     = [Start [''app''] [''HOME=/root'', ''B=localhost:50000''] (Some 7)]"
    by (simp add: runner.simps Cycle_def nextPort_def env_entry_def Let_def dv)
  ultimately show ?thesis
    by simp
qed



text \<open>
  The claim as stated, fresh values for every declared forwarder, fails when two pairs
  declare the same public port: for \<open>-addr-env=A:8080,B:8080\<close> the spawn after the
  pulse gets a new value for \<open>B\<close> and nothing for \<open>A\<close>.
\<close>

theorem shared_port_restart_counterexample:
  "map_option
     (\<lambda>g. fst (runner [''app''] []
                 [\<lparr>order = [8080], started = Some 7, pulse = True\<rparr>,
                  \<lparr>order = [8080], started = Some 8, pulse = False\<rparr>] g))
     (started_state (init (\<lambda>i. \<lparr>listen_ok = (i = 0), accepts = []\<rparr>) (length [''app''])
        (parsed False ''A:8080,B:8080'' 50000 60000)))
   = Some [Start [''app''] [''B=localhost:50000''] (Some 7), Recv,
           PLog ''Files have changed, reloading...'', Kill9 (- 7), Reap 7,
           Start [''app''] [''B=localhost:50001''] (Some 8)]"
proof -
  have dv: "dec 50000 = ''50000''" "dec 50001 = ''50001''"
    by (simp_all add: dec.simps)
  have "started_state (init (\<lambda>i. \<lparr>listen_ok = (i = 0), accepts = []\<rparr>) (length [''app''])
          (parsed False ''A:8080,B:8080'' 50000 60000))
        = Some \<lparr>verbose = False, addrEnvs = ''A:8080,B:8080'', portMin = 50000,
                portMax = 60000, portCycle = 49999,
                portMap = [8080 \<mapsto> \<lparr>env = ''B'', src = 8080, dest = 0\<rparr>]\<rparr>"
    by (simp add: init_def parsed_def SplitN_2 Atoi_def digit_val_def
        newPortForwarder_def Let_def)
  then show ?thesis
    by (simp add: runner.simps Cycle_def nextPort_def env_entry_def Let_def dv)
qed

section \<open>Claims about startup and the forwarder\<close>

text \<open>
  C7 (as amended). \<open>init\<close> does not look at the range: whether it ends in
  \<open>log.Fatalln\<close>, and with which error, is the same for every value of \<open>port-min\<close> and
  \<open>port-max\<close>. An empty range is accepted, and \<open>nextPort\<close>, which has no error
  condition, is then called on it.
\<close>

theorem range_is_not_validated:
  "fatal_of (init w nargs (g\<lparr>portMin := lo, portMax := hi\<rparr>)) = fatal_of (init w nargs g)"
  by (auto simp: init_def intro: addrEnv_loop_fatal_of)

text \<open>
  The claim as stated fails: with \<open>port-min = port-max = 50000\<close> (an empty range) and
  a command and a well-formed pair, \<open>init\<close> returns normally, and the first two calls of
  \<open>nextPort\<close> return \<open>50000\<close> and \<open>50001\<close>.
\<close>

theorem empty_range_accepted_counterexample:
  "fatal_of (init (\<lambda>i. \<lparr>listen_ok = True, accepts = []\<rparr>) 1
      (parsed False ''APP_ADDR:8080'' 50000 50000)) = None
   \<and> map_option (\<lambda>g. map uint (fst (nextPorts 2 g)))
       (started_state (init (\<lambda>i. \<lparr>listen_ok = True, accepts = []\<rparr>) 1
          (parsed False ''APP_ADDR:8080'' 50000 50000)))
     = Some [50000, 50001]"
proof -
  have "init (\<lambda>i. \<lparr>listen_ok = True, accepts = []\<rparr>) 1
          (parsed False ''APP_ADDR:8080'' 50000 50000)
        = Started \<lparr>verbose = False, addrEnvs = ''APP_ADDR:8080'', portMin = 50000,
                   portMax = 50000, portCycle = 49999,
                   portMap = [8080 \<mapsto> \<lparr>env = ''APP_ADDR'', src = 8080, dest = 0\<rparr>]\<rparr>
            [([Listen '':8080''], [], None)]"
    by (simp add: init_def parsed_def SplitN_2 Atoi_def digit_val_def
        newPortForwarder_def Run_def Let_def dec_8080)
  then show ?thesis
    by (simp add: fatal_of_def nextPorts_two nextPort_def)
qed

text \<open>
  C5 (as amended). A forwarder whose \<open>net.Listen\<close> fails returns the error from \<open>Run\<close>
  at once, having accepted nothing; nothing receives that value, and neither the
  outcome of \<open>init\<close> (fatal or not, and with which error) nor the package state it
  leaves depends on what the network gives the forwarders.
\<close>

theorem bind_failure_only_ends_the_forwarder:
  "Run \<lparr>listen_ok = False, accepts = evs\<rparr> p
     = ([Listen ('':'' @ dec (unat (src p)))], [], Some ListenError)
   \<and> fatal_of (init w nargs g) = fatal_of (init w' nargs g)
   \<and> started_state (init w nargs g) = started_state (init w' nargs g)"
proof -
  have "fatal_of (init w nargs g) = fatal_of (init w' nargs g)"
    by (auto simp: init_def intro: addrEnv_loop_fatal_of)
  moreover have "started_state (init w nargs g) = started_state (init w' nargs g)"
    by (auto simp: init_def intro: addrEnv_loop_started_state)
  ultimately show ?thesis
    by (simp add: Run_def)
qed

text \<open>
  The claim as stated fails: when \<open>net.Listen\<close> fails for the only forwarder, \<open>init\<close>
  still returns normally; the forwarder's goroutine has ended with the listen error.
\<close>

theorem bind_failure_counterexample:
  "init (\<lambda>i. \<lparr>listen_ok = False, accepts = []\<rparr>) 1
     (parsed False ''APP_ADDR:8080'' 50000 60000)
   = Started \<lparr>verbose = False, addrEnvs = ''APP_ADDR:8080'', portMin = 50000,
              portMax = 60000, portCycle = 49999,
              portMap = [8080 \<mapsto> \<lparr>env = ''APP_ADDR'', src = 8080, dest = 0\<rparr>]\<rparr>
       [([Listen '':8080''], [], Some ListenError)]"
  by (simp add: init_def parsed_def SplitN_2 Atoi_def digit_val_def
      newPortForwarder_def Run_def Let_def dec_8080)

text \<open>
  C6 (the code at a failing input). One accepted connection whose dial succeeds: both
  relay goroutines end with \<open>sock.Close()\<close>, and nothing closes the outbound connection
  \<open>Remote 0\<close>. No run of \<open>Run\<close> ever closes an outbound connection, as shown above for
  every listener outcome and every prefix of accepted connections.
\<close>

theorem relay_never_closes_outbound:
  "Run \<lparr>listen_ok = True, accepts = [Accepted 50000 True]\<rparr>
       \<lparr>env = ''APP_ADDR'', src = 8080, dest = 50000\<rparr>
   = ([Listen '':8080'', Dial ''localhost:50000''],
      [[Copy (Sock 0) (Remote 0), Close (Sock 0)],
       [Copy (Remote 0) (Sock 0), Close (Sock 0)]],
      None)"
  by (simp add: Run_def read_thread_def write_thread_def dec_8080 dec_50000)

text \<open>
  C10 (as amended). Given a command, if some element \<open>e\<close> of
  \<open>strings.Split(addrEnvs, ",")\<close> has no \<open>':'\<close>, then \<open>init\<close> ends in \<open>log.Fatalln\<close> with
  one of the two syntax errors, and at that point at most the forwarders of the
  elements before \<open>e\<close> have been started. When \<open>e\<close> is the first element (as for the
  default empty value) the error is the missing port and no forwarder has been started.
\<close>

theorem missing_port_is_fatal:
  assumes "0 < nargs"
    and "Split (addrEnvs g) CHR '','' = pre @ e # post"
    and "CHR '':'' \<notin> set e"
  shows "\<exists>err gos. init w nargs g = Fatal err gos
           \<and> take 13 (message err) = ''Syntax error:''
           \<and> (pre = [] \<longrightarrow> err = MissingPort)
           \<and> length gos \<le> length pre"
proof -
  from addrEnv_loop_missing_port [OF assms(3), of w 0 pre post
      "g\<lparr>portCycle := word_of_int (portMin g) - 1\<rparr>" "[]"]
  obtain err gos where all:
    "addrEnv_loop w 0 (pre @ e # post) (g\<lparr>portCycle := word_of_int (portMin g) - 1\<rparr>) []
        = Fatal err gos
     \<and> (err = MissingPort \<or> err = InvalidPort)
     \<and> (pre = [] \<longrightarrow> err = MissingPort)
     \<and> length gos \<le> length ([] :: run_outcome list) + length pre"
    by (elim exE)
  then have l: "addrEnv_loop w 0 (pre @ e # post)
                  (g\<lparr>portCycle := word_of_int (portMin g) - 1\<rparr>) [] = Fatal err gos"
    and e: "err = MissingPort \<or> err = InvalidPort" "pre = [] \<longrightarrow> err = MissingPort"
    and n: "length gos \<le> length pre"
    by simp_all
  have "init w nargs g = Fatal err gos"
    using assms(1,2) l by (simp add: init_def)
  moreover have "take 13 (message err) = ''Syntax error:''"
    using e(1) by auto
  ultimately show ?thesis
    using e(2) n by auto
qed

theorem missing_port_is_fatal_witness:
  "Split (addrEnvs (parsed False [] 50000 60000)) CHR '','' = [] @ [] # []
   \<and> CHR '':'' \<notin> set []
   \<and> init (\<lambda>i. \<lparr>listen_ok = True, accepts = []\<rparr>) 1 (parsed False [] 50000 60000)
     = Fatal MissingPort []"
proof -
  let ?w = "\<lambda>i::nat. \<lparr>listen_ok = True, accepts = []\<rparr>"
  let ?g = "parsed False [] 50000 60000"
  have n: "0 < (1::nat)"
    by simp
  have s: "Split (addrEnvs ?g) CHR '','' = [] @ [] # []"
    by (simp add: parsed_def)
  have c: "CHR '':'' \<notin> set []"
    by simp
  from missing_port_is_fatal [OF n s c, of ?w]
  have "init ?w 1 ?g = Fatal MissingPort []"
    by auto
  with s c show ?thesis
    by simp
qed

text \<open>
  The claim as stated says that the program ends before any core component runs. For
  \<open>-addr-env=A:8080,B\<close> the forwarder of \<open>A:8080\<close> has been started, and here has bound
  its listener, when the element \<open>B\<close> ends the program.
\<close>

theorem missing_port_after_forwarder_counterexample:
  "init (\<lambda>i. \<lparr>listen_ok = True, accepts = []\<rparr>) 1 (parsed False ''A:8080,B'' 50000 60000)
   = Fatal MissingPort [([Listen '':8080''], [], None)]"
  by (simp add: init_def parsed_def SplitN_2 Atoi_def digit_val_def
      newPortForwarder_def Run_def Let_def dec_8080)

end
